theory Spec2Isabelle
  imports Main "HOL-Library.Sublist"
begin

section \<open>Data model\<close>

text \<open>
  The track objects built by \<^verbatim>\<open>getAllTrackData\<close> in \<^verbatim>\<open>src/routes/index.js\<close>.
  The fields \<^verbatim>\<open>isrc\<close> and \<^verbatim>\<open>popularity\<close> are attached only when the second
  fetch phase finds the track; a property that was never assigned reads as
  \<^verbatim>\<open>undefined\<close>, which is \<open>None\<close> here. \<^verbatim>\<open>album_type\<close> is the string of the
  upstream response.

  A JavaScript string is a sequence of UTF-16 code units. The title, which the
  filter searches and takes apart, is the list of its code units, each the
  number it stands for (numbers from 65536 on do not occur in a string; none of
  them is a delimiter or white space below). The other strings are only ever
  compared for equality and stay \<open>string\<close>s.
\<close>

type_synonym jschar = nat

type_synonym jsstring = "jschar list"

record track =
  track_id :: string
  title :: jsstring
  uri :: string
  album_type :: string
  external :: bool
  artists :: "string list"
  duration_ms :: nat
  isrc :: "string option"
  popularity :: "nat option"

section \<open>The JavaScript \<^verbatim>\<open>Map\<close>\<close>

text \<open>
  A JavaScript \<^verbatim>\<open>Map\<close> remembers the order in which keys were first inserted:
  \<^verbatim>\<open>set\<close> on a key that is present overwrites the value where it stands,
  \<^verbatim>\<open>set\<close> on an absent key appends, \<^verbatim>\<open>delete\<close> removes the entry, and
  \<^verbatim>\<open>values()\<close> lists the values in that order. \<^verbatim>\<open>undefined\<close> is a key like
  any other. The model is an association list in insertion order.
\<close>

type_synonym ('k, 'v) jsmap = "('k \<times> 'v) list"

definition map_get :: "('k, 'v) jsmap \<Rightarrow> 'k \<Rightarrow> 'v option" where
  "map_get m k = map_of m k"

definition map_has :: "('k, 'v) jsmap \<Rightarrow> 'k \<Rightarrow> bool" where
  "map_has m k = (map_get m k \<noteq> None)"

fun map_set :: "('k, 'v) jsmap \<Rightarrow> 'k \<Rightarrow> 'v \<Rightarrow> ('k, 'v) jsmap" where
  "map_set [] k v = [(k, v)]"
| "map_set ((k', v') # m) k v =
     (if k' = k then (k, v) # m else (k', v') # map_set m k v)"

definition map_delete :: "('k, 'v) jsmap \<Rightarrow> 'k \<Rightarrow> ('k, 'v) jsmap" where
  "map_delete m k = filter (\<lambda>e. fst e \<noteq> k) m"

definition map_vals :: "('k, 'v) jsmap \<Rightarrow> 'v list" where
  "map_vals m = map snd m"

section \<open>The duplicate resolver\<close>

text \<open>
  The body of the \<^verbatim>\<open>forEach\<close> of \<^verbatim>\<open>removeDuplicateTracks\<close>. Every replacement
  in the source is the pair \<^verbatim>\<open>uniqueTracks.delete(key); uniqueTracks.set(key, track)\<close>,
  here \<open>delete_set\<close>. The three \<^verbatim>\<open>if\<close> statements of the non-external branch
  run one after the other, on the map the previous one left.
\<close>

definition delete_set :: "(string option, track) jsmap \<Rightarrow> string option \<Rightarrow> track
    \<Rightarrow> (string option, track) jsmap" where
  "delete_set m key t = map_set (map_delete m key) key t"

definition dedup_step :: "(string option, track) jsmap \<Rightarrow> track
    \<Rightarrow> (string option, track) jsmap" where
  "dedup_step uniqueTracks t =
     (let key = isrc t in
      if \<not> map_has uniqueTracks key then map_set uniqueTracks key t
      else
        (case map_get uniqueTracks key of
           None \<Rightarrow> uniqueTracks
         | Some previousTrack \<Rightarrow>
             if external t \<and> external previousTrack then
               (if (album_type t = ''single'' \<and> album_type previousTrack \<noteq> ''album'')
                   \<or> album_type t = ''album''
                then delete_set uniqueTracks key t
                else uniqueTracks)
             else if \<not> external t then
               (let m1 =
                  (if album_type t = ''single'' then
                     (if external previousTrack then
                        (if album_type previousTrack = ''single''
                            \<or> album_type previousTrack = ''album''
                            \<or> album_type previousTrack = ''compilation''
                         then delete_set uniqueTracks key t
                         else uniqueTracks)
                      else if album_type previousTrack = ''single''
                            \<or> album_type previousTrack = ''compilation''
                      then delete_set uniqueTracks key t
                      else uniqueTracks)
                   else uniqueTracks);
                    m2 =
                  (if album_type t = ''album'' then delete_set m1 key t else m1);
                    m3 =
                  (if album_type t = ''compilation'' then
                     (if album_type previousTrack = ''compilation''
                      then delete_set m2 key t
                      else m2)
                   else m2)
                in m3)
             else uniqueTracks))"

definition removeDuplicateTracks :: "track list \<Rightarrow> track list" where
  "removeDuplicateTracks tracks = map_vals (foldl dedup_step [] tracks)"

text \<open>Concrete tracks for the examples: only the fields the resolver and the
  filter read vary. \<open>code_units\<close> are the code units of an ASCII literal.\<close>

definition code_units :: "string \<Rightarrow> jsstring" where
  "code_units s = map of_char s"

definition mk_track :: "string \<Rightarrow> string \<Rightarrow> bool \<Rightarrow> string option \<Rightarrow> track" where
  "mk_track ttl ty ext code =
     \<lparr>track_id = ttl, title = code_units ttl, uri = ''spotify:track:'' @ ttl,
      album_type = ty, external = ext, artists = [], duration_ms = 0, isrc = code,
      popularity = None\<rparr>"

section \<open>JavaScript strings\<close>

text \<open>
  \<^verbatim>\<open>includes\<close> is the contiguous-substring test on code units; \<^verbatim>\<open>indexOf\<close> is
  only ever called with a one-unit string, taken here as a code unit, and
  answers \<open>-1\<close> when the unit is missing; \<^verbatim>\<open>substring\<close> clamps its arguments to
  the string and swaps them when they are out of order.

  \<^verbatim>\<open>trim\<close> strips from both ends the white space and the line terminators of
  the language: tab, line feed, vertical tab, form feed, carriage return, space,
  U+00A0, U+1680, U+2000 to U+200A, U+2028, U+2029, U+202F, U+205F, U+3000 and
  U+FEFF. Each is one code unit.

  \<^verbatim>\<open>toLowerCase\<close> is the language's own lower-casing by the Unicode tables,
  which are no part of the program. It is a parameter \<open>toLowerCase\<close> of the
  filter: any function from strings to strings.
\<close>

definition hyphen :: jschar where
  "hyphen = 45"

definition paren :: jschar where
  "paren = 40"

definition str_includes :: "jsstring \<Rightarrow> jsstring \<Rightarrow> bool" where
  "str_includes s sub = sublist sub s"

fun indexOf :: "jsstring \<Rightarrow> jschar \<Rightarrow> int" where
  "indexOf [] c = - 1"
| "indexOf (x # xs) c =
     (if x = c then 0 else (let i = indexOf xs c in if i < 0 then - 1 else i + 1))"

definition substring :: "jsstring \<Rightarrow> int \<Rightarrow> int \<Rightarrow> jsstring" where
  "substring s a b =
     (let n = int (length s);
          a' = max 0 (min a n);
          b' = max 0 (min b n);
          lo = min a' b';
          hi = max a' b'
      in take (nat (hi - lo)) (drop (nat lo) s))"

definition substring_from :: "jsstring \<Rightarrow> int \<Rightarrow> jsstring" where
  "substring_from s a = drop (nat (max 0 (min a (int (length s))))) s"

definition is_space :: "jschar \<Rightarrow> bool" where
  "is_space c =
     (c \<in> {9, 10, 11, 12, 13, 32, 160, 5760, 8232, 8233, 8239, 8287, 12288, 65279}
      \<or> (8192 \<le> c \<and> c \<le> 8202))"

definition trim :: "jsstring \<Rightarrow> jsstring" where
  "trim s = rev (dropWhile is_space (rev (dropWhile is_space s)))"

section \<open>The alternate-version filter\<close>

text \<open>The constant arrays \<^verbatim>\<open>keywords\<close> (here \<open>alt_keywords\<close>) and
  \<^verbatim>\<open>exceptions\<close> of the loop body.\<close>

definition alt_keywords :: "jsstring list" where
  "alt_keywords = map code_units
     [''version'', ''live'', ''remix'', ''edit'', ''acoustic'', ''stripped'', ''session'',
      ''sessions'', ''demo'', ''acapella'', ''a cappella'', ''memo'', ''track by track'',
      ''mix'', ''recorded at'', ''instrumental'', ''orchestral'', ''spotify singles'',
      ''commentary'', ''extended'', ''sped up'', ''slowed'', ''voicenote'', ''club'',
      ''dub'', ''radio'', ''fix'']"

definition exceptions :: "jsstring list" where
  "exceptions = map code_units [''taylor'']"

text \<open>
  The body of the \<^verbatim>\<open>forEach\<close> of \<^verbatim>\<open>removeAlternateVersions\<close>. \<open>tracks\<close> is the
  whole input, which \<^verbatim>\<open>tracks.find\<close> searches; \<^verbatim>\<open>find\<close> answers \<^verbatim>\<open>undefined\<close>
  (here \<open>None\<close>) when no track matches, and a track object is truthy. The
  \<^verbatim>\<open>console.log\<close> of the removal is not modelled. Every kept track is stored
  with \<^verbatim>\<open>uniqueTracks.set(track.isrc, track)\<close>. The strings \<^verbatim>\<open>"-"\<close> and \<^verbatim>\<open>"("\<close>
  are the one-unit strings \<open>[hyphen]\<close> and \<open>[paren]\<close>.
\<close>

definition alt_step :: "(jsstring \<Rightarrow> jsstring) \<Rightarrow> track list
    \<Rightarrow> (string option, track) jsmap \<Rightarrow> track \<Rightarrow> (string option, track) jsmap" where
  "alt_step toLowerCase tracks uniqueTracks t =
     (if str_includes (title t) [hyphen] \<or> str_includes (title t) [paren] then
        (let title_lc = toLowerCase (title t);
             separatorIndex =
               (if str_includes title_lc [hyphen] \<and> str_includes title_lc [paren] then
                  min (indexOf title_lc hyphen) (indexOf title_lc paren)
                else if str_includes title_lc [hyphen] then indexOf title_lc hyphen
                else indexOf title_lc paren);
             titleBeforeSeparator = trim (substring title_lc 0 separatorIndex);
             titleAfterSeparator = trim (substring_from title_lc (separatorIndex + 1));
             hasKeyword =
               list_ex (\<lambda>keyword. str_includes titleAfterSeparator keyword) alt_keywords;
             hasException =
               list_ex (\<lambda>exception. str_includes titleAfterSeparator exception) exceptions
         in if hasKeyword \<and> \<not> hasException then
              (case find (\<lambda>u. toLowerCase (title u) = titleBeforeSeparator) tracks of
                 None \<Rightarrow> map_set uniqueTracks (isrc t) t
               | Some matchingTrack \<Rightarrow> uniqueTracks)
            else map_set uniqueTracks (isrc t) t)
      else map_set uniqueTracks (isrc t) t)"

definition removeAlternateVersions :: "(jsstring \<Rightarrow> jsstring) \<Rightarrow> track list \<Rightarrow> track list" where
  "removeAlternateVersions toLowerCase tracks =
     map_vals (foldl (alt_step toLowerCase tracks) [] tracks)"

section \<open>The paginated fetcher\<close>

text \<open>
  The upstream call \<^verbatim>\<open>spotifyApi.getArtistAlbums(artistId, {include_groups, limit,
  offset})\<close> is a parameter: it answers the items of the page, or fails, and a
  failed \<^verbatim>\<open>await\<close> throws out of \<^verbatim>\<open>fetchAllAlbums\<close>. The loop
  \<^verbatim>\<open>while (true)\<close> of \<^verbatim>\<open>fetchAlbums\<close> need not end, so it is a partial function:
  \<open>None\<close> is the run that never returns. Its state is the pair of the
  variables \<^verbatim>\<open>offset\<close> and \<^verbatim>\<open>allAlbums\<close> of the enclosing function. The one-second
  pause after each page is not modelled.
\<close>

datatype api_error = RequestFailed

type_synonym 'a artist_albums_api = "string \<Rightarrow> string \<Rightarrow> nat \<Rightarrow> nat \<Rightarrow> api_error + 'a list"

definition limit :: nat where
  "limit = 49"

partial_function (option) fetchAlbums :: "'a artist_albums_api \<Rightarrow> string \<Rightarrow> string
    \<Rightarrow> nat \<times> 'a list \<Rightarrow> (api_error + nat \<times> 'a list) option" where
  "fetchAlbums getArtistAlbums artistId includeGroups st =
     (case getArtistAlbums artistId includeGroups limit (fst st) of
        Inl err \<Rightarrow> Some (Inl err)
      | Inr items \<Rightarrow>
          if length items = 0 then Some (Inr st)
          else fetchAlbums getArtistAlbums artistId includeGroups
                 (fst st + limit, snd st @ items))"

definition fetchAllAlbums :: "'a artist_albums_api \<Rightarrow> string \<Rightarrow> (api_error + 'a list) option" where
  "fetchAllAlbums getArtistAlbums artistId =
     Option.bind (fetchAlbums getArtistAlbums artistId ''album'' (0, [])) (\<lambda>r1.
       case r1 of Inl err \<Rightarrow> Some (Inl err) | Inr st1 \<Rightarrow>
     Option.bind (fetchAlbums getArtistAlbums artistId ''single'' (0, snd st1)) (\<lambda>r2.
       case r2 of Inl err \<Rightarrow> Some (Inl err) | Inr st2 \<Rightarrow>
     Option.bind (fetchAlbums getArtistAlbums artistId ''compilation'' (0, snd st2)) (\<lambda>r3.
       case r3 of Inl err \<Rightarrow> Some (Inl err) | Inr st3 \<Rightarrow>
     Option.bind (fetchAlbums getArtistAlbums artistId ''appears_on'' (0, snd st3)) (\<lambda>r4.
       case r4 of Inl err \<Rightarrow> Some (Inl err) | Inr st4 \<Rightarrow> Some (Inr (snd st4))))))"

section \<open>Chunked playlist insertion\<close>

text \<open>
  The \<^verbatim>\<open>for\<close> loop of the \<^verbatim>\<open>create-playlist\<close> handler over \<^verbatim>\<open>trackUris\<close>. The
  upstream call \<^verbatim>\<open>spotifyApi.addTracksToPlaylist(playlistId, chunk)\<close> is a parameter
  that says whether the call succeeds; when it throws the handler answers 500
  and returns, so no later chunk is sent. The loop returns the calls it issued,
  in order, and whether it ran to the end.
\<close>

definition chunkSize :: nat where
  "chunkSize = 100"

definition slice :: "'a list \<Rightarrow> nat \<Rightarrow> nat \<Rightarrow> 'a list" where
  "slice xs i j = take (j - i) (drop i xs)"

function addTracksLoop :: "(string \<Rightarrow> string list \<Rightarrow> bool) \<Rightarrow> string \<Rightarrow> string list
    \<Rightarrow> nat \<Rightarrow> string list list \<Rightarrow> string list list \<times> bool" where
  "addTracksLoop addTracksToPlaylist playlistId trackUris i calls =
     (if i < length trackUris then
        (let chunk = slice trackUris i (i + chunkSize) in
         if addTracksToPlaylist playlistId chunk
         then addTracksLoop addTracksToPlaylist playlistId trackUris (i + chunkSize)
                (calls @ [chunk])
         else (calls @ [chunk], False))
      else (calls, True))"
  by pat_completeness auto
termination
  by (relation "measure (\<lambda>(a, p, trackUris, i, calls). length trackUris - i)")
     (auto simp: chunkSize_def)

definition addAllTracks :: "(string \<Rightarrow> string list \<Rightarrow> bool) \<Rightarrow> string \<Rightarrow> string list
    \<Rightarrow> string list list \<times> bool" where
  "addAllTracks addTracksToPlaylist playlistId trackUris =
     addTracksLoop addTracksToPlaylist playlistId trackUris 0 []"

section \<open>Auxiliary definitions\<close>

subsection \<open>The resolver's policy and invariant\<close>

text \<open>
  \<open>replaces t p\<close> collects the conditions under which the loop body of
  \<^verbatim>\<open>removeDuplicateTracks\<close> reaches a \<^verbatim>\<open>delete\<close>/\<^verbatim>\<open>set\<close> pair for the incoming track
  \<open>t\<close> and the selected track \<open>p\<close>; \<open>dedup_step_present\<close> below proves that
  this is what \<open>dedup_step\<close> does. \<open>select\<close> is the selection of one group as
  the records of that group arrive.
\<close>

definition replaces :: "track \<Rightarrow> track \<Rightarrow> bool" where
  "replaces t p =
     (if external t \<and> external p then
        (album_type t = ''single'' \<and> album_type p \<noteq> ''album'') \<or> album_type t = ''album''
      else if \<not> external t then
        (album_type t = ''single'' \<and>
           (if external p
            then album_type p = ''single'' \<or> album_type p = ''album''
                 \<or> album_type p = ''compilation''
            else album_type p = ''single'' \<or> album_type p = ''compilation''))
        \<or> album_type t = ''album''
        \<or> (album_type t = ''compilation'' \<and> album_type p = ''compilation'')
      else False)"

fun select :: "track option \<Rightarrow> track \<Rightarrow> track option" where
  "select None t = Some t"
| "select (Some p) t = (if replaces t p then Some t else Some p)"

text \<open>The maps both loops build: every key once, every record under its own
  \<^verbatim>\<open>isrc\<close>.\<close>

definition map_inv :: "(string option, track) jsmap \<Rightarrow> bool" where
  "map_inv m = (distinct (map fst m) \<and> (\<forall>e \<in> set m. isrc (snd e) = fst e))"

text \<open>The order in which the keys of a list first appear.\<close>

definition group_order :: "'a list \<Rightarrow> 'a list" where
  "group_order ks = rev (remdups (rev ks))"

subsection \<open>The filter's rule as the specification words it\<close>

text \<open>
  The specification splits a title at its earliest hyphen or opening
  parenthesis into a base part and a suffix part, compares without regard to
  case, and drops a track when the suffix holds a keyword and no exception and
  some track of the input is titled as the base part. Its third example
  (\<^verbatim>\<open>Song (Acoustic)\<close> is dropped next to \<^verbatim>\<open>Song\<close>) compares the base part without
  the white space around it. Without regard to case: on the lower-cased
  titles, by the same \<open>toLowerCase\<close>.
\<close>

definition is_delim :: "jschar \<Rightarrow> bool" where
  "is_delim c = (c = hyphen \<or> c = paren)"

definition base_part :: "jsstring \<Rightarrow> jsstring" where
  "base_part s = takeWhile (\<lambda>c. \<not> is_delim c) s"

definition suffix_part :: "jsstring \<Rightarrow> jsstring" where
  "suffix_part s = tl (dropWhile (\<lambda>c. \<not> is_delim c) s)"

definition spec_dropped :: "(jsstring \<Rightarrow> jsstring) \<Rightarrow> track list \<Rightarrow> track \<Rightarrow> bool" where
  "spec_dropped toLowerCase tracks t =
     ((\<exists>c \<in> set (title t). is_delim c)
      \<and> (\<exists>kw \<in> set alt_keywords. sublist kw (suffix_part (toLowerCase (title t))))
      \<and> \<not> (\<exists>ex \<in> set exceptions. sublist ex (suffix_part (toLowerCase (title t))))
      \<and> (\<exists>u \<in> set tracks.
            toLowerCase (title u) = trim (base_part (toLowerCase (title t)))))"

text \<open>\<open>keeps toLowerCase tracks t\<close>: the loop body of \<^verbatim>\<open>removeAlternateVersions\<close>
  stores \<open>t\<close>, read off the code by running the body on the empty map.\<close>

definition keeps :: "(jsstring \<Rightarrow> jsstring) \<Rightarrow> track list \<Rightarrow> track \<Rightarrow> bool" where
  "keeps toLowerCase tracks t = (alt_step toLowerCase tracks [] t \<noteq> [])"

text \<open>
  An instance of \<open>toLowerCase\<close> for the examples: the lower-casing of the code
  units below 256, that is of \<^verbatim>\<open>A\<close> to \<^verbatim>\<open>Z\<close> and of the capital letters of
  Latin-1 (U+00C0 to U+00DE without the multiplication sign U+00D7), each 32
  below its small letter.
\<close>

definition latin1_lower_unit :: "jschar \<Rightarrow> jschar" where
  "latin1_lower_unit c =
     (if (65 \<le> c \<and> c \<le> 90) \<or> (192 \<le> c \<and> c \<le> 222 \<and> c \<noteq> 215) then c + 32 else c)"

definition latin1_lower :: "jsstring \<Rightarrow> jsstring" where
  "latin1_lower s = map latin1_lower_unit s"

subsection \<open>Example tracks\<close>

definition ex_a :: track where
  "ex_a = mk_track ''A'' ''single'' False None"

definition ex_b :: track where
  "ex_b = mk_track ''B'' ''album'' False None"

definition ex_s :: track where
  "ex_s = mk_track ''S'' ''single'' False (Some ''X'')"

definition ex_t :: track where
  "ex_t = mk_track ''T'' ''album'' False (Some ''X'')"

definition ex_p :: track where
  "ex_p = mk_track ''P'' ''single'' True (Some ''X'')"

definition ex_c :: track where
  "ex_c = mk_track ''C'' ''compilation'' False (Some ''X'')"

definition ex_order :: "track list" where
  "ex_order = [mk_track ''A'' ''single'' False (Some ''X''),
               mk_track ''B'' ''single'' False (Some ''Y''),
               mk_track ''C'' ''album'' False (Some ''X'')]"

definition ex_song :: track where
  "ex_song = mk_track ''Song'' ''album'' False (Some ''S1'')"

definition ex_acoustic :: track where
  "ex_acoustic = mk_track ''Song (Acoustic)'' ''single'' False (Some ''S2'')"

definition ex_taylor :: track where
  "ex_taylor = mk_track ''Song (Taylor's Version)'' ''album'' False (Some ''S3'')"

definition ex_other :: track where
  "ex_other = mk_track ''Other - Live'' ''single'' False (Some ''S4'')"

text \<open>Titles outside ASCII: \<^verbatim>\<open>caf\<close> with U+00E9, \<^verbatim>\<open>CAF\<close> with U+00C9 before
  \<^verbatim>\<open> (Live)\<close>, and \<^verbatim>\<open>Song\<close>, the no-break space U+00A0, \<^verbatim>\<open>- Live\<close>.\<close>

definition ex_cafe :: track where
  "ex_cafe = (mk_track ''cafe'' ''album'' False (Some ''S5''))
     \<lparr>title := code_units ''caf'' @ [233]\<rparr>"

definition ex_cafe_live :: track where
  "ex_cafe_live = (mk_track ''cafe-live'' ''single'' False (Some ''S6''))
     \<lparr>title := code_units ''CAF'' @ [201] @ code_units '' (Live)''\<rparr>"

definition ex_nbsp_live :: track where
  "ex_nbsp_live = (mk_track ''song-live'' ''single'' False (Some ''S7''))
     \<lparr>title := code_units ''Song'' @ [160] @ code_units ''- Live''\<rparr>"

subsection \<open>Pages of the fetcher\<close>

text \<open>
  \<open>pages api a g off n\<close> are the items of the \<open>n\<close> pages of category \<open>g\<close>
  at the offsets \<open>off\<close>, \<open>off + limit\<close>, ...; a page is non-empty when the
  call succeeds with at least one item. \<open>stops_after\<close> says that a run of the
  loop from the state \<open>st\<close> with the result \<open>r\<close> met only non-empty pages and
  then the page that ends it: the failure \<open>r\<close> reports, or the empty page.
  \<open>stops_at api a g n\<close>: from offset 0, page \<open>n\<close> of category \<open>g\<close> is the
  first that is not non-empty, and it is empty. \<open>include_groups\<close> are the
  categories in the order \<^verbatim>\<open>fetchAllAlbums\<close> asks for them.
\<close>

fun pages :: "'a artist_albums_api \<Rightarrow> string \<Rightarrow> string \<Rightarrow> nat \<Rightarrow> nat \<Rightarrow> 'a list" where
  "pages api a g off 0 = []"
| "pages api a g off (Suc n) =
     (case api a g limit off of Inl _ \<Rightarrow> [] | Inr items \<Rightarrow> items) @ pages api a g (off + limit) n"

definition nonempty_page :: "'a artist_albums_api \<Rightarrow> string \<Rightarrow> string \<Rightarrow> nat \<Rightarrow> bool" where
  "nonempty_page api a g off = (case api a g limit off of Inl _ \<Rightarrow> False | Inr items \<Rightarrow> items \<noteq> [])"

definition stops_after :: "'a artist_albums_api \<Rightarrow> string \<Rightarrow> string \<Rightarrow> nat \<times> 'a list
    \<Rightarrow> api_error + nat \<times> 'a list \<Rightarrow> bool" where
  "stops_after api a g st r =
     (\<exists>n. (\<forall>k<n. nonempty_page api a g (fst st + k * limit))
        \<and> api a g limit (fst st + n * limit) = (case r of Inl e \<Rightarrow> Inl e | Inr st' \<Rightarrow> Inr []))"

definition stops_at :: "'a artist_albums_api \<Rightarrow> string \<Rightarrow> string \<Rightarrow> nat \<Rightarrow> bool" where
  "stops_at api a g n =
     ((\<forall>k<n. nonempty_page api a g (k * limit)) \<and> api a g limit (n * limit) = Inr [])"

definition include_groups :: "string list" where
  "include_groups = [''album'', ''single'', ''compilation'', ''appears_on'']"

text \<open>Two upstreams for the examples: \<open>ex_api\<close> has one page of albums and two
  pages of singles, \<open>busy_api\<close> never runs out of items.\<close>

definition ex_api :: "nat artist_albums_api" where
  "ex_api artistId includeGroups lim offset =
     (if includeGroups = ''album'' \<and> offset = 0 then Inr [1, 2]
      else if includeGroups = ''single'' \<and> offset < 2 * lim then Inr [offset]
      else Inr [])"

definition busy_api :: "nat artist_albums_api" where
  "busy_api artistId includeGroups lim offset = Inr [offset]"

subsection \<open>Chunk sizes\<close>

text \<open>The sizes of the chunks of \<open>n\<close> items: full chunks, then the rest if
  there is one.\<close>

definition chunk_lengths :: "nat \<Rightarrow> nat list" where
  "chunk_lengths n =
     replicate (n div chunkSize) chunkSize @ (if n mod chunkSize = 0 then [] else [n mod chunkSize])"

section \<open>The map operations\<close>

lemma map_set_absent: "k \<notin> fst ` set m \<Longrightarrow> map_set m k v = m @ [(k, v)]"
  by (induction m) auto

lemma map_set_not_Nil: "map_set m k v \<noteq> []"
  by (cases m) (auto split: if_splits)

lemma map_of_map_set:
  "map_of (map_set m k v) k' = (if k' = k then Some v else map_of m k')"
  by (induction m) auto

lemma map_set_keys: "set (map fst (map_set m k v)) = insert k (set (map fst m))"
  by (induction m k v rule: map_set.induct) auto

lemma map_set_vals: "set (map snd (map_set m k v)) \<subseteq> insert v (set (map snd m))"
  by (induction m k v rule: map_set.induct) auto

lemma map_delete_absent: "k \<notin> fst ` set m \<Longrightarrow> map_delete m k = m"
  unfolding map_delete_def by (induction m) auto

lemma map_of_filter_key: "map_of (filter (\<lambda>e. fst e \<noteq> k) m) k = None"
  by (induction m) auto

lemma delete_set_eq: "delete_set m k t = filter (\<lambda>e. fst e \<noteq> k) m @ [(k, t)]"
  unfolding delete_set_def map_delete_def
  by (rule map_set_absent) auto

lemma map_inv_isrc: "map_inv m \<Longrightarrow> map isrc (map snd m) = map fst m"
  by (induction m) (auto simp: map_inv_def)

lemma map_inv_filter_key:
  "map_inv m \<Longrightarrow>
   filter (\<lambda>u. isrc u = k) (map snd m) = (case map_of m k of None \<Rightarrow> [] | Some v \<Rightarrow> [v])"
proof (induction m)
  case Nil
  then show ?case by simp
next
  case (Cons e m)
  then have inv: "map_inv m" and e: "isrc (snd e) = fst e" and nk: "fst e \<notin> fst ` set m"
    by (auto simp: map_inv_def)
  show ?case
  proof (cases "fst e = k")
    case True
    with nk have "map_of m k = None" by (simp add: map_of_eq_None_iff)
    with Cons.IH [OF inv] have "filter (\<lambda>u. isrc u = k) (map snd m) = []" by simp
    with True e show ?thesis by (cases e) auto
  next
    case False
    with e Cons.IH [OF inv] show ?thesis by (cases e) auto
  qed
qed

lemma map_set_inv: "map_inv m \<Longrightarrow> map_inv (map_set m (isrc t) t)"
proof (induction m)
  case Nil
  then show ?case by (simp add: map_inv_def)
next
  case (Cons e m)
  then have inv: "map_inv m" and e: "isrc (snd e) = fst e" and nk: "fst e \<notin> fst ` set m"
    by (auto simp: map_inv_def)
  show ?case
  proof (cases "fst e = isrc t")
    case True
    with Cons.prems show ?thesis by (cases e) (auto simp: map_inv_def)
  next
    case False
    from Cons.IH [OF inv] have "map_inv (map_set m (isrc t) t)" .
    moreover have "fst e \<notin> set (map fst (map_set m (isrc t) t))"
      using nk False by (simp only: map_set_keys) auto
    ultimately show ?thesis using False e by (cases e) (auto simp: map_inv_def)
  qed
qed

section \<open>The duplicate resolver: one step\<close>

lemma dedup_step_absent:
  "map_of m (isrc t) = None \<Longrightarrow> dedup_step m t = m @ [(isrc t, t)]"
  by (simp add: dedup_step_def map_has_def map_get_def map_set_absent map_of_eq_None_iff)

lemma dedup_step_present:
  "map_of m (isrc t) = Some p \<Longrightarrow>
   dedup_step m t =
     (if replaces t p then filter (\<lambda>e. fst e \<noteq> isrc t) m @ [(isrc t, t)] else m)"
  by (simp add: dedup_step_def map_has_def map_get_def delete_set_eq replaces_def Let_def)

lemma dedup_step_shape:
  "dedup_step m t = m \<or> dedup_step m t = map_delete m (isrc t) @ [(isrc t, t)]"
proof (cases "map_of m (isrc t)")
  case None
  then have "isrc t \<notin> fst ` set m" by (simp add: map_of_eq_None_iff)
  with None show ?thesis by (simp add: dedup_step_absent map_delete_absent)
next
  case (Some p)
  then show ?thesis by (simp add: dedup_step_present map_delete_def)
qed

lemma dedup_step_keys:
  "set (map fst (dedup_step m t)) = insert (isrc t) (set (map fst m))"
proof (cases "map_of m (isrc t)")
  case None
  then show ?thesis by (simp add: dedup_step_absent)
next
  case (Some p)
  then have "isrc t \<in> fst ` set m" by (metis map_of_eq_None_iff option.distinct(1))
  then show ?thesis using Some by (auto simp: dedup_step_present)
qed

lemma dedup_step_inv: "map_inv m \<Longrightarrow> map_inv (dedup_step m t)"
proof (cases "map_of m (isrc t)")
  case None
  assume "map_inv m"
  then show ?thesis using None
    by (auto simp: dedup_step_absent map_inv_def map_of_eq_None_iff)
next
  case (Some p)
  assume "map_inv m"
  then show ?thesis using Some
    by (auto simp: dedup_step_present map_inv_def distinct_map_filter)
qed

lemma dedup_step_subseq:
  "subseq (map snd m) pre \<Longrightarrow> subseq (map snd (dedup_step m t)) (pre @ [t])"
proof (cases "map_of m (isrc t)")
  case None
  assume "subseq (map snd m) pre"
  then show ?thesis using None by (simp add: dedup_step_absent)
next
  case (Some p)
  assume a: "subseq (map snd m) pre"
  have "subseq (map snd (filter (\<lambda>e. fst e \<noteq> isrc t) m)) (map snd m)"
    by (simp add: subseq_map)
  with a have "subseq (map snd (filter (\<lambda>e. fst e \<noteq> isrc t) m)) pre"
    using subseq_order.trans by blast
  with a Some show ?thesis
    by (auto simp: dedup_step_present subseq_rev_drop_many)
qed

lemma map_of_dedup_step:
  "map_of (dedup_step m t) k = (if isrc t = k then select (map_of m k) t else map_of m k)"
proof (cases "map_of m (isrc t)")
  case None
  then show ?thesis by (auto simp: dedup_step_absent map_add_def split: option.splits)
next
  case (Some p)
  have "map_of (filter (\<lambda>e. fst e \<noteq> isrc t) m) k = (if k = isrc t then None else map_of m k)"
    by (induction m) auto
  with Some show ?thesis
    by (auto simp: dedup_step_present map_add_def split: option.splits)
qed

section \<open>The duplicate resolver: the whole loop\<close>

lemma foldl_dedup_inv: "map_inv m \<Longrightarrow> map_inv (foldl dedup_step m ts)"
  by (induction ts arbitrary: m) (auto simp: dedup_step_inv)

lemma foldl_dedup_keys:
  "set (map fst (foldl dedup_step m ts)) = set (map fst m) \<union> isrc ` set ts"
proof (induction ts arbitrary: m)
  case Nil
  then show ?case by simp
next
  case (Cons t ts)
  show ?case unfolding foldl_Cons Cons.IH dedup_step_keys by auto
qed

lemma foldl_dedup_subseq:
  "subseq (map snd m) pre \<Longrightarrow> subseq (map snd (foldl dedup_step m ts)) (pre @ ts)"
proof (induction ts arbitrary: m pre)
  case Nil
  then show ?case by simp
next
  case (Cons t ts)
  from Cons.IH [OF dedup_step_subseq [OF Cons.prems, of t]] show ?case by simp
qed

lemma map_of_foldl_dedup:
  "map_of (foldl dedup_step m ts) k = foldl select (map_of m k) (filter (\<lambda>t. isrc t = k) ts)"
  by (induction ts arbitrary: m) (auto simp: map_of_dedup_step)

lemma foldl_select_Some: "foldl select (Some p) xs \<noteq> None"
  by (induction xs arbitrary: p) auto

lemma foldl_select_None: "foldl select None xs = None \<longleftrightarrow> xs = []"
  by (cases xs) (auto simp: foldl_select_Some)

lemma rdt_subseq: "subseq (removeDuplicateTracks ts) ts"
  using foldl_dedup_subseq [of "[]" "[]" ts]
  by (simp add: removeDuplicateTracks_def map_vals_def)

lemma rdt_keys: "map isrc (removeDuplicateTracks ts) = map fst (foldl dedup_step [] ts)"
  unfolding removeDuplicateTracks_def map_vals_def
  by (rule map_inv_isrc, rule foldl_dedup_inv) (simp add: map_inv_def)

lemma rdt_distinct: "distinct (map isrc (removeDuplicateTracks ts))"
  using foldl_dedup_inv [of "[]" ts] by (simp add: rdt_keys map_inv_def)

lemma rdt_keyset: "set (map isrc (removeDuplicateTracks ts)) = isrc ` set ts"
  by (simp only: rdt_keys foldl_dedup_keys) simp

lemma rdt_filter_key:
  "filter (\<lambda>u. isrc u = k) (removeDuplicateTracks ts) =
     (case foldl select None (filter (\<lambda>t. isrc t = k) ts) of None \<Rightarrow> [] | Some v \<Rightarrow> [v])"
proof -
  have "map_inv (foldl dedup_step [] ts)"
    by (rule foldl_dedup_inv) (simp add: map_inv_def)
  from map_inv_filter_key [OF this, of k] show ?thesis
    by (simp add: removeDuplicateTracks_def map_vals_def map_of_foldl_dedup)
qed

lemma rdt_all_key:
  assumes "\<forall>t \<in> set ts. isrc t = k"
  shows "filter (\<lambda>u. isrc u = k) (removeDuplicateTracks ts) = removeDuplicateTracks ts"
proof -
  have "set (map isrc (removeDuplicateTracks ts)) = isrc ` set ts" by (rule rdt_keyset)
  with assms have "\<forall>u \<in> set (removeDuplicateTracks ts). isrc u = k" by auto
  then show ?thesis by simp
qed

lemma rdt_groups_independent:
  "filter (\<lambda>u. isrc u = k) (removeDuplicateTracks ts) =
     removeDuplicateTracks (filter (\<lambda>t. isrc t = k) ts)"
proof -
  have "removeDuplicateTracks (filter (\<lambda>t. isrc t = k) ts) =
        filter (\<lambda>u. isrc u = k) (removeDuplicateTracks (filter (\<lambda>t. isrc t = k) ts))"
    by (rule rdt_all_key [symmetric]) simp
  also have "\<dots> = filter (\<lambda>u. isrc u = k) (removeDuplicateTracks ts)"
    by (simp add: rdt_filter_key)
  finally show ?thesis by simp
qed

lemma rdt_singleton: "removeDuplicateTracks [x] = [x]"
  by (simp add: removeDuplicateTracks_def map_vals_def dedup_step_absent)

lemma rdt_count:
  "length (filter (\<lambda>u. isrc u = k) (removeDuplicateTracks ts)) =
     (if k \<in> isrc ` set ts then 1 else 0)"
proof -
  have "filter (\<lambda>t. isrc t = k) ts = [] \<longleftrightarrow> k \<notin> isrc ` set ts"
    by (auto simp: filter_empty_conv)
  then show ?thesis
    using foldl_select_None [of "filter (\<lambda>t. isrc t = k) ts"]
    by (auto simp: rdt_filter_key split: option.splits)
qed

section \<open>Claims about the duplicate resolver\<close>

text \<open>
  C1, as the code has it. A record without an identifier is never merged with a
  record that carries one: the identifier-less records of the output are the
  result of resolving the identifier-less records of the input on their own.
  They are not singleton groups, though: all of them share the one key
  \<^verbatim>\<open>undefined\<close> and compete under the priority policy, so at most one of them
  is in the output. A record that is the only identifier-less record of the
  input is in the output unchanged.
\<close>

theorem resolver_absent_identifier_group:
  "filter (\<lambda>u. isrc u = None) (removeDuplicateTracks ts) =
     removeDuplicateTracks (filter (\<lambda>t. isrc t = None) ts)
   \<and> length (filter (\<lambda>u. isrc u = None) (removeDuplicateTracks ts)) \<le> 1
   \<and> (filter (\<lambda>t. isrc t = None) ts = [x] \<longrightarrow>
        filter (\<lambda>u. isrc u = None) (removeDuplicateTracks ts) = [x])"
proof -
  have a: "filter (\<lambda>u. isrc u = None) (removeDuplicateTracks ts) =
     removeDuplicateTracks (filter (\<lambda>t. isrc t = None) ts)"
    by (rule rdt_groups_independent)
  have b: "length (filter (\<lambda>u. isrc u = None) (removeDuplicateTracks ts)) \<le> 1"
    by (simp add: rdt_count)
  have d: "filter (\<lambda>u. isrc u = None) (removeDuplicateTracks ts) = [x]"
    if "filter (\<lambda>t. isrc t = None) ts = [x]"
    using that by (simp add: a rdt_singleton)
  from a b d show ?thesis by blast
qed

text \<open>The sole identifier-less record \<open>ex_a\<close>, between two records of the
  identifier \<^verbatim>\<open>X\<close>, comes out as it went in.\<close>

theorem resolver_absent_identifier_group_witness:
  "filter (\<lambda>u. isrc u = None) (removeDuplicateTracks [ex_s, ex_a, ex_t]) = [ex_a]"
proof -
  have "filter (\<lambda>t. isrc t = None) [ex_s, ex_a, ex_t] = [ex_a]"
    by (simp add: ex_a_def ex_s_def ex_t_def mk_track_def)
  with resolver_absent_identifier_group [of "[ex_s, ex_a, ex_t]" ex_a]
  show ?thesis by blast
qed

text \<open>C1 as stated fails: of two records without an identifier, a single and an
  album, the resolver keeps the album only.\<close>

theorem resolver_merges_absent_identifiers:
  "isrc ex_a = None \<and> isrc ex_b = None
   \<and> removeDuplicateTracks [ex_a, ex_b] = [ex_b]
   \<and> ex_a \<notin> set (removeDuplicateTracks [ex_a, ex_b])"
  by (simp add: ex_a_def ex_b_def mk_track_def removeDuplicateTracks_def map_vals_def
      dedup_step_def map_has_def map_get_def delete_set_def map_delete_def Let_def)

text \<open>
  C2. For every input list and every key \<open>k\<close>, the number of records of the
  resolver's output whose identifier is \<open>k\<close> is one when \<open>k\<close> occurs in the
  input and zero otherwise: at most one record per identifier, and no
  identifier of the input is lost.
\<close>

theorem resolver_one_record_per_identifier:
  "length (filter (\<lambda>u. isrc u = k) (removeDuplicateTracks ts)) =
     (if k \<in> isrc ` set ts then 1 else 0)"
  by (rule rdt_count)

text \<open>
  C3, as the code has it. When the incoming record \<open>t\<close> is non-external and
  the record \<open>p\<close> selected for its identifier is external with category
  single, album or compilation, the incoming record replaces the selection when
  its own category is single or album, or when both are compilations. In every
  other case (an incoming compilation against an external single or album, or an
  incoming category outside the three) the external selection stays.
\<close>

theorem resolver_nonexternal_over_external:
  assumes "map_get m (isrc t) = Some p" and "\<not> external t" and "external p"
    and "album_type p = ''single'' \<or> album_type p = ''album''
         \<or> album_type p = ''compilation''"
  shows "map_get (dedup_step m t) (isrc t) =
     Some (if album_type t = ''single'' \<or> album_type t = ''album''
              \<or> (album_type t = ''compilation'' \<and> album_type p = ''compilation'')
           then t else p)"
proof -
  from assms(1) have mo: "map_of m (isrc t) = Some p" by (simp add: map_get_def)
  have "map_of (filter (\<lambda>e. fst e \<noteq> isrc t) m @ [(isrc t, t)]) (isrc t) = Some t"
    by (simp add: map_add_def map_of_filter_key)
  with assms mo show ?thesis
    by (auto simp: dedup_step_present [OF mo] replaces_def map_get_def)
qed

text \<open>Against the external single \<open>ex_p\<close>, the non-external single \<open>ex_s\<close>
  takes the selection and the non-external compilation \<open>ex_c\<close> does not.\<close>

theorem resolver_nonexternal_over_external_witness:
  "map_get (dedup_step [(Some ''X'', ex_p)] ex_s) (isrc ex_s) = Some ex_s
   \<and> map_get (dedup_step [(Some ''X'', ex_p)] ex_c) (isrc ex_c) = Some ex_p"
proof -
  have 1: "map_get [(Some ''X'', ex_p)] (isrc ex_s) = Some ex_p"
    by (simp add: map_get_def ex_s_def mk_track_def)
  have 2: "\<not> external ex_s" by (simp add: ex_s_def mk_track_def)
  have 3: "external ex_p" by (simp add: ex_p_def mk_track_def)
  have 4: "album_type ex_p = ''single'' \<or> album_type ex_p = ''album''
           \<or> album_type ex_p = ''compilation''"
    by (simp add: ex_p_def mk_track_def)
  have 5: "map_get [(Some ''X'', ex_p)] (isrc ex_c) = Some ex_p"
    by (simp add: map_get_def ex_c_def mk_track_def)
  have 6: "\<not> external ex_c" by (simp add: ex_c_def mk_track_def)
  from resolver_nonexternal_over_external [OF 1 2 3 4]
    resolver_nonexternal_over_external [OF 5 6 3 4]
  show ?thesis by (simp add: ex_c_def ex_p_def ex_s_def mk_track_def)
qed

text \<open>C3 as stated fails for an incoming compilation: the non-external
  compilation \<open>ex_c\<close> does not replace the external single \<open>ex_p\<close> of the same
  identifier.\<close>

theorem resolver_compilation_keeps_external:
  "\<not> external ex_c \<and> external ex_p \<and> album_type ex_p = ''single''
   \<and> isrc ex_c = isrc ex_p
   \<and> removeDuplicateTracks [ex_p, ex_c] = [ex_p]"
  by (simp add: ex_p_def ex_c_def mk_track_def removeDuplicateTracks_def map_vals_def
      dedup_step_def map_has_def map_get_def delete_set_def map_delete_def Let_def)

text \<open>
  C4, as the code has it. The resolver's output is a subsequence of its input:
  the surviving records stand in the order of their own positions in the input,
  so the ascending release dates set at fetch time are kept but for the dropped
  entries. The groups are not in the order of their first appearance: a step
  either leaves the map alone or deletes the group's entry and appends the
  incoming record, which moves a replaced group to the end.
\<close>

theorem resolver_output_subseq:
  "subseq (removeDuplicateTracks ts) ts
   \<and> (dedup_step m t = m \<or> dedup_step m t = map_delete m (isrc t) @ [(isrc t, t)])"
  using rdt_subseq dedup_step_shape by blast

text \<open>C4 as stated fails: the group \<^verbatim>\<open>X\<close> appears first in \<open>ex_order\<close>, and
  after its single is replaced by the album it stands behind the group
  \<^verbatim>\<open>Y\<close>.\<close>

theorem resolver_order_not_first_appearance:
  "group_order (map isrc ex_order) = [Some ''X'', Some ''Y'']
   \<and> map isrc (removeDuplicateTracks ex_order) = [Some ''Y'', Some ''X'']"
  by (simp add: group_order_def ex_order_def mk_track_def removeDuplicateTracks_def
      map_vals_def dedup_step_def map_has_def map_get_def delete_set_def map_delete_def
      Let_def)

section \<open>String operations\<close>

lemma str_includes_char: "str_includes s [c] \<longleftrightarrow> c \<in> set s"
  unfolding str_includes_def
  by (induction s) (auto simp: sublist_Cons_right)

lemma indexOf_eq:
  "indexOf s c = (if c \<in> set s then int (length (takeWhile (\<lambda>x. x \<noteq> c) s)) else - 1)"
  by (induction s) (auto simp: Let_def)

lemma length_takeWhile_conj:
  "length (takeWhile (\<lambda>x. P x \<and> Q x) s) =
     min (length (takeWhile P s)) (length (takeWhile Q s))"
  by (induction s) auto

lemma substring_take: "n \<le> length s \<Longrightarrow> substring s 0 (int n) = take n s"
  by (simp add: substring_def Let_def min_def max_def)

lemma substring_from_drop: "substring_from s (int n + 1) = drop (Suc n) s"
  by (auto simp: substring_from_def min_def max_def nat_add_distrib)

lemma sublist_dropWhile_iff:
  assumes "kw \<noteq> []" and "\<not> P (hd kw)"
  shows "sublist kw (dropWhile P s) \<longleftrightarrow> sublist kw s"
proof (induction s)
  case Nil
  then show ?case by simp
next
  case (Cons x xs)
  show ?case
  proof (cases "P x")
    case True
    with assms have "\<not> prefix kw (x # xs)" by (cases kw) auto
    with True Cons show ?thesis by (simp add: sublist_Cons_right)
  next
    case False
    then show ?thesis by simp
  qed
qed

lemma sublist_trim_iff:
  assumes "kw \<noteq> []" and "\<not> is_space (hd kw)" and "\<not> is_space (last kw)"
  shows "sublist kw (trim s) \<longleftrightarrow> sublist kw s"
proof -
  have "sublist kw (trim s) \<longleftrightarrow>
        sublist (rev kw) (dropWhile is_space (rev (dropWhile is_space s)))"
    by (simp add: trim_def sublist_rev_right)
  also have "\<dots> \<longleftrightarrow> sublist (rev kw) (rev (dropWhile is_space s))"
    using assms by (intro sublist_dropWhile_iff) (auto simp: hd_rev)
  also have "\<dots> \<longleftrightarrow> sublist kw (dropWhile is_space s)" by simp
  also have "\<dots> \<longleftrightarrow> sublist kw s"
    using assms by (intro sublist_dropWhile_iff) auto
  finally show ?thesis .
qed

lemma keywords_trim_ok:
  "\<forall>kw \<in> set alt_keywords \<union> set exceptions.
     kw \<noteq> [] \<and> \<not> is_space (hd kw) \<and> \<not> is_space (last kw)"
  by (simp add: alt_keywords_def exceptions_def code_units_def is_space_def)

lemma keyword_after_trim:
  "kw \<in> set alt_keywords \<union> set exceptions \<Longrightarrow> str_includes (trim s) kw \<longleftrightarrow> sublist kw s"
  unfolding str_includes_def using keywords_trim_ok by (intro sublist_trim_iff) auto

lemma latin1_lower_delim: "is_delim c \<Longrightarrow> is_delim (latin1_lower_unit c)"
  by (auto simp: is_delim_def latin1_lower_unit_def hyphen_def paren_def)

lemma latin1_lower_keeps_delim:
  "\<forall>s. (\<exists>c \<in> set s. is_delim c) \<longrightarrow> (\<exists>c \<in> set (latin1_lower s). is_delim c)"
  unfolding latin1_lower_def using latin1_lower_delim by auto

section \<open>The alternate-version filter: the decision for one track\<close>

lemma base_part_conj:
  "base_part s = takeWhile (\<lambda>x. x \<noteq> hyphen \<and> x \<noteq> paren) s"
  by (simp add: base_part_def is_delim_def)

lemma separatorIndex_eq:
  assumes "\<exists>c \<in> set s. is_delim c"
  shows "(if str_includes s [hyphen] \<and> str_includes s [paren] then
            min (indexOf s hyphen) (indexOf s paren)
          else if str_includes s [hyphen] then indexOf s hyphen
          else indexOf s paren) = int (length (base_part s))"
proof -
  consider (both) "hyphen \<in> set s" "paren \<in> set s"
    | (hyphen) "hyphen \<in> set s" "paren \<notin> set s"
    | (paren) "hyphen \<notin> set s" "paren \<in> set s"
    using assms by (auto simp: is_delim_def)
  then show ?thesis
  proof cases
    case both
    then show ?thesis
      by (simp add: str_includes_char indexOf_eq base_part_conj length_takeWhile_conj)
  next
    case hyphen
    then have "takeWhile (\<lambda>x. x \<noteq> hyphen \<and> x \<noteq> paren) s =
               takeWhile (\<lambda>x. x \<noteq> hyphen) s"
      by (intro takeWhile_cong) auto
    with hyphen show ?thesis
      by (simp add: str_includes_char indexOf_eq base_part_conj)
  next
    case paren
    then have "takeWhile (\<lambda>x. x \<noteq> hyphen \<and> x \<noteq> paren) s =
               takeWhile (\<lambda>x. x \<noteq> paren) s"
      by (intro takeWhile_cong) auto
    with paren show ?thesis
      by (simp add: str_includes_char indexOf_eq base_part_conj)
  qed
qed

lemma substring_base: "substring s 0 (int (length (base_part s))) = base_part s"
proof -
  have "length (base_part s) \<le> length s"
    by (simp add: base_part_def length_takeWhile_le)
  then show ?thesis
    by (simp add: substring_take base_part_def takeWhile_eq_take [symmetric])
qed

lemma substring_suffix: "substring_from s (int (length (base_part s)) + 1) = suffix_part s"
  by (simp add: substring_from_drop suffix_part_def base_part_def dropWhile_eq_drop
      drop_Suc tl_drop)

lemma title_has_delim:
  "str_includes (title t) [hyphen] \<or> str_includes (title t) [paren]
     \<longleftrightarrow> (\<exists>c \<in> set (title t). is_delim c)"
  by (auto simp: str_includes_char is_delim_def)

lemma alt_step_keeps:
  "alt_step lc tracks m t = (if keeps lc tracks t then map_set m (isrc t) t else m)"
  by (simp add: keeps_def alt_step_def Let_def map_set_not_Nil split: option.splits)

text \<open>The decision depends on the input list only through the search for a
  track titled as the base part: on a smaller list fewer tracks are dropped.\<close>

lemma find_None_subset:
  "set ys \<subseteq> set xs \<Longrightarrow> find P xs = None \<Longrightarrow> find P ys = None"
  by (auto simp: find_None_iff)

lemma keeps_antimono:
  assumes "set ys \<subseteq> set xs" and "keeps lc xs t"
  shows "keeps lc ys t"
proof -
  have n: "find P ys = None" if "find P xs = None" for P :: "track \<Rightarrow> bool"
    using assms(1) that by (rule find_None_subset)
  from assms(2) show ?thesis
    unfolding keeps_def alt_step_def Let_def
    by (auto simp: map_set_not_Nil n split: if_splits option.splits)
qed

text \<open>When lower-casing leaves a hyphen or a parenthesis in every title that
  has one, the decision of the code is the rule of the specification.\<close>

lemma keeps_iff:
  assumes lc: "\<forall>s. (\<exists>c \<in> set s. is_delim c) \<longrightarrow> (\<exists>c \<in> set (lc s). is_delim c)"
  shows "keeps lc tracks t \<longleftrightarrow> \<not> spec_dropped lc tracks t"
proof (cases "\<exists>c \<in> set (title t). is_delim c")
  case False
  then have "\<not> (str_includes (title t) [hyphen] \<or> str_includes (title t) [paren])"
    using title_has_delim [of t] by blast
  then have "keeps lc tracks t" by (simp add: keeps_def alt_step_def)
  with False show ?thesis by (simp add: spec_dropped_def)
next
  case True
  define s where "s = lc (title t)"
  from True lc have ds: "\<exists>c \<in> set s. is_delim c" unfolding s_def by blast
  have inc: "str_includes (title t) [hyphen] \<or> str_includes (title t) [paren]"
    using True title_has_delim [of t] by blast
  have kw: "list_ex (\<lambda>keyword. str_includes (trim (suffix_part s)) keyword) alt_keywords
            \<longleftrightarrow> (\<exists>kw \<in> set alt_keywords. sublist kw (suffix_part s))"
    by (auto simp: list_ex_iff keyword_after_trim)
  have ex: "list_ex (\<lambda>exception. str_includes (trim (suffix_part s)) exception) exceptions
            \<longleftrightarrow> (\<exists>ex \<in> set exceptions. sublist ex (suffix_part s))"
    by (auto simp: list_ex_iff keyword_after_trim)
  have fnd: "find (\<lambda>u. lc (title u) = trim (base_part s)) tracks = None
            \<longleftrightarrow> \<not> (\<exists>u \<in> set tracks. lc (title u) = trim (base_part s))"
    by (auto simp: find_None_iff)
  have "keeps lc tracks t \<longleftrightarrow>
        \<not> (list_ex (\<lambda>keyword. str_includes (trim (suffix_part s)) keyword) alt_keywords
           \<and> \<not> list_ex (\<lambda>exception. str_includes (trim (suffix_part s)) exception)
                 exceptions
           \<and> find (\<lambda>u. lc (title u) = trim (base_part s)) tracks \<noteq> None)"
    unfolding keeps_def alt_step_def Let_def s_def [symmetric]
      separatorIndex_eq [OF ds] substring_base substring_suffix
    using inc by (auto split: option.splits)
  then show ?thesis
    unfolding kw ex fnd using True by (simp add: spec_dropped_def s_def)
qed

section \<open>The alternate-version filter: the whole loop\<close>

lemma alt_step_inv: "map_inv m \<Longrightarrow> map_inv (alt_step lc tracks m t)"
  by (simp add: alt_step_keeps map_set_inv)

lemma foldl_alt_inv: "map_inv m \<Longrightarrow> map_inv (foldl (alt_step lc tracks) m xs)"
  by (induction xs arbitrary: m) (auto simp: alt_step_inv)

lemma foldl_alt_vals:
  "set (map snd (foldl (alt_step lc tracks) m xs))
     \<subseteq> set (map snd m) \<union> {t \<in> set xs. keeps lc tracks t}"
proof (induction xs arbitrary: m)
  case Nil
  then show ?case by simp
next
  case (Cons x xs)
  have "set (map snd (alt_step lc tracks m x))
          \<subseteq> set (map snd m) \<union> {t \<in> {x}. keeps lc tracks t}"
    using map_set_vals [of m "isrc x" x] by (auto simp: alt_step_keeps)
  with Cons.IH [of "alt_step lc tracks m x"] show ?case by auto
qed

lemma map_of_alt_step:
  "map_of (alt_step lc tracks m x) k =
     (if isrc x = k \<and> keeps lc tracks x then Some x else map_of m k)"
  by (simp add: alt_step_keeps map_of_map_set)

lemma map_of_foldl_alt:
  "map_of (foldl (alt_step lc tracks) m xs) k =
     (case rev (filter (\<lambda>u. isrc u = k \<and> keeps lc tracks u) xs) of
        [] \<Rightarrow> map_of m k | u # _ \<Rightarrow> Some u)"
proof (induction xs rule: rev_induct)
  case Nil
  then show ?case by simp
next
  case (snoc x xs)
  then show ?case by (simp add: map_of_alt_step)
qed

lemma rav_inv: "map_inv (foldl (alt_step lc tracks) [] xs)"
  by (rule foldl_alt_inv) (simp add: map_inv_def)

lemma rav_filter_key:
  "filter (\<lambda>u. isrc u = k) (removeAlternateVersions lc ts) =
     (case rev (filter (\<lambda>u. isrc u = k \<and> keeps lc ts u) ts) of [] \<Rightarrow> [] | u # _ \<Rightarrow> [u])"
  using map_inv_filter_key [OF rav_inv, of k lc ts ts]
  by (simp add: removeAlternateVersions_def map_vals_def map_of_foldl_alt split: list.splits)

lemma rav_distinct_keys: "distinct (map isrc (removeAlternateVersions lc ts))"
proof -
  have "map isrc (map snd (foldl (alt_step lc ts) [] ts)) =
        map fst (foldl (alt_step lc ts) [] ts)"
    by (rule map_inv_isrc, rule rav_inv)
  moreover have "distinct (map fst (foldl (alt_step lc ts) [] ts))"
    using rav_inv [of lc ts ts] by (simp add: map_inv_def)
  ultimately show ?thesis
    by (simp only: removeAlternateVersions_def map_vals_def)
qed

lemma rav_subset: "set (removeAlternateVersions lc ts) \<subseteq> {t \<in> set ts. keeps lc ts t}"
  using foldl_alt_vals [of lc ts "[]" ts]
  by (simp add: removeAlternateVersions_def map_vals_def)

lemma foldl_alt_distinct:
  "distinct (map fst m @ map isrc xs) \<Longrightarrow>
   foldl (alt_step lc tracks) m xs =
     m @ map (\<lambda>t. (isrc t, t)) (filter (keeps lc tracks) xs)"
proof (induction xs arbitrary: m)
  case Nil
  then show ?case by simp
next
  case (Cons x xs)
  from Cons.prems have nk: "isrc x \<notin> fst ` set m" by auto
  show ?case
  proof (cases "keeps lc tracks x")
    case True
    then have st: "alt_step lc tracks m x = m @ [(isrc x, x)]"
      by (simp add: alt_step_keeps map_set_absent [OF nk])
    from Cons.prems have "distinct (map fst (m @ [(isrc x, x)]) @ map isrc xs)" by auto
    from Cons.IH [OF this] st True show ?thesis by simp
  next
    case False
    then have st: "alt_step lc tracks m x = m" by (simp add: alt_step_keeps)
    from Cons.prems have "distinct (map fst m @ map isrc xs)" by auto
    from Cons.IH [OF this] st False show ?thesis by simp
  qed
qed

lemma rav_distinct_input:
  "distinct (map isrc ts) \<Longrightarrow> removeAlternateVersions lc ts = filter (keeps lc ts) ts"
  using foldl_alt_distinct [of "[]" ts lc ts]
  by (simp add: removeAlternateVersions_def map_vals_def comp_def)

section \<open>Claims about the alternate-version filter\<close>

text \<open>
  C5. \<open>toLowerCase\<close> is the language's lower-casing, of which only this is
  used: a title with a hyphen or an opening parenthesis still has one in lower
  case. Then, for every input list, the loop body of the filter leaves a track
  out exactly when its title has a hyphen or an opening parenthesis, the
  lower-cased suffix after the earliest of them holds a keyword and no
  exception, and some track of the input has, in lower case, the base part as
  its full title (the base part without the white space around it); in every
  other case the body stores the track. No dropped track is in the output, and
  on an input whose identifiers are pairwise distinct, as the resolver's output
  is, the output is the input without the dropped tracks, in the input's order.
\<close>

theorem filter_drop_condition:
  assumes "\<forall>s. (\<exists>c \<in> set s. is_delim c) \<longrightarrow> (\<exists>c \<in> set (toLowerCase s). is_delim c)"
  shows "alt_step toLowerCase tracks m t =
       (if spec_dropped toLowerCase tracks t then m else map_set m (isrc t) t)
   \<and> set (removeAlternateVersions toLowerCase tracks)
       \<subseteq> {t \<in> set tracks. \<not> spec_dropped toLowerCase tracks t}
   \<and> (distinct (map isrc tracks) \<longrightarrow>
        removeAlternateVersions toLowerCase tracks =
          filter (\<lambda>t. \<not> spec_dropped toLowerCase tracks t) tracks)"
proof -
  note k = keeps_iff [OF assms]
  have 1: "alt_step toLowerCase tracks m t =
       (if spec_dropped toLowerCase tracks t then m else map_set m (isrc t) t)"
    by (simp add: alt_step_keeps k)
  have 2: "set (removeAlternateVersions toLowerCase tracks)
       \<subseteq> {t \<in> set tracks. \<not> spec_dropped toLowerCase tracks t}"
    using rav_subset [of toLowerCase tracks] by (auto simp: k)
  have 3: "removeAlternateVersions toLowerCase tracks =
          filter (\<lambda>t. \<not> spec_dropped toLowerCase tracks t) tracks"
    if "distinct (map isrc tracks)"
  proof -
    from that have "removeAlternateVersions toLowerCase tracks =
        filter (keeps toLowerCase tracks) tracks"
      by (rule rav_distinct_input)
    also have "\<dots> = filter (\<lambda>t. \<not> spec_dropped toLowerCase tracks t) tracks"
      by (rule filter_cong) (simp_all add: k)
    finally show ?thesis .
  qed
  from 1 2 3 show ?thesis by blast
qed

text \<open>With the lower-casing of Latin-1: the acoustic version goes because
  \<^verbatim>\<open>Song\<close> is there, and so do the live version whose base part ends in a
  no-break space and the live version in capitals of the track with U+00E9;
  Taylor's version stays for its exception, and the live version of \<^verbatim>\<open>Other\<close>
  stays because no track is titled \<^verbatim>\<open>Other\<close>.\<close>

theorem filter_drop_condition_witness:
  "removeAlternateVersions latin1_lower
     [ex_acoustic, ex_song, ex_taylor, ex_other, ex_cafe, ex_cafe_live, ex_nbsp_live] =
     [ex_song, ex_taylor, ex_other, ex_cafe]"
proof -
  let ?ts = "[ex_acoustic, ex_song, ex_taylor, ex_other, ex_cafe, ex_cafe_live, ex_nbsp_live]"
  have d: "distinct (map isrc ?ts)"
    by (simp add: ex_acoustic_def ex_song_def ex_taylor_def ex_other_def ex_cafe_def
        ex_cafe_live_def ex_nbsp_live_def mk_track_def)
  have "filter (\<lambda>t. \<not> spec_dropped latin1_lower ?ts t) ?ts =
        [ex_song, ex_taylor, ex_other, ex_cafe]"
    by (simp add: ex_acoustic_def ex_song_def ex_taylor_def ex_other_def ex_cafe_def
        ex_cafe_live_def ex_nbsp_live_def mk_track_def code_units_def spec_dropped_def
        is_delim_def hyphen_def paren_def base_part_def suffix_part_def latin1_lower_def
        latin1_lower_unit_def trim_def is_space_def alt_keywords_def exceptions_def
        sublist_code prefix_code)
  with filter_drop_condition [OF latin1_lower_keeps_delim, of ?ts] d
  show ?thesis by simp
qed

text \<open>
  C6, as the code has it. The filter keys its output by \<^verbatim>\<open>track.isrc\<close> alone,
  with no fallback to the track itself: for every key, the absent identifier
  included, the output holds at most one record, and it is the last track of the
  input with that key that the loop body stored. Of two kept tracks without an
  identifier only the later one is in the output. This holds whatever the
  lower-casing is.
\<close>

theorem filter_key_last_kept:
  "filter (\<lambda>u. isrc u = k) (removeAlternateVersions toLowerCase ts) =
     (case rev (filter (\<lambda>u. isrc u = k \<and> keeps toLowerCase ts u) ts) of
        [] \<Rightarrow> [] | u # _ \<Rightarrow> [u])"
  by (rule rav_filter_key)

text \<open>C6 as stated fails: \<open>ex_a\<close> and \<open>ex_b\<close> have no identifier, both are
  kept, and the second overwrites the first. Their titles have neither a hyphen
  nor a parenthesis, so the lower-casing is not reached.\<close>

theorem filter_overwrites_absent_identifier:
  "isrc ex_a = None \<and> isrc ex_b = None \<and> ex_a \<noteq> ex_b
   \<and> keeps latin1_lower [ex_a, ex_b] ex_a \<and> keeps latin1_lower [ex_a, ex_b] ex_b
   \<and> removeAlternateVersions latin1_lower [ex_a, ex_b] = [ex_b]"
  by (simp add: ex_a_def ex_b_def mk_track_def code_units_def keeps_def
      removeAlternateVersions_def alt_step_def map_vals_def str_includes_def hyphen_def
      paren_def sublist_code prefix_code)

text \<open>
  C7. The filter is idempotent: on its own output it changes nothing, neither
  the records nor their order, whatever the lower-casing is.
\<close>

theorem filter_idempotent:
  "removeAlternateVersions toLowerCase (removeAlternateVersions toLowerCase ts) =
     removeAlternateVersions toLowerCase ts"
proof -
  let ?out = "removeAlternateVersions toLowerCase ts"
  have "set ?out \<subseteq> set ts" using rav_subset [of toLowerCase ts] by auto
  then have "\<forall>t \<in> set ?out. keeps toLowerCase ?out t"
    using rav_subset [of toLowerCase ts] keeps_antimono [of ?out ts toLowerCase] by auto
  then have "filter (keeps toLowerCase ?out) ?out = ?out" by simp
  with rav_distinct_input [OF rav_distinct_keys, of toLowerCase toLowerCase ts]
  show ?thesis by simp
qed

section \<open>The paginated fetcher: the loop of one category\<close>

lemma fetchAlbums_run:
  "(\<And>k. k < n \<Longrightarrow> nonempty_page api a g (off + k * limit)) \<Longrightarrow>
   api a g limit (off + n * limit) = Inr [] \<Longrightarrow>
   fetchAlbums api a g (off, acc) = Some (Inr (off + n * limit, acc @ pages api a g off n))"
proof (induction n arbitrary: off acc)
  case 0
  then show ?case by (subst fetchAlbums.simps) simp
next
  case (Suc n)
  from Suc.prems(1) [of 0] obtain items where
    p0: "api a g limit off = Inr items" and ne: "items \<noteq> []"
    by (auto simp: nonempty_page_def split: sum.splits)
  have "fetchAlbums api a g (off + limit, acc @ items) =
        Some (Inr (off + limit + n * limit, (acc @ items) @ pages api a g (off + limit) n))"
  proof (rule Suc.IH)
    fix k assume "k < n"
    then have "nonempty_page api a g (off + Suc k * limit)" by (intro Suc.prems(1)) simp
    then show "nonempty_page api a g (off + limit + k * limit)" by (simp add: add.assoc)
  next
    from Suc.prems(2) show "api a g limit (off + limit + n * limit) = Inr []"
      by (simp add: add.assoc)
  qed
  with p0 ne show ?case
    by (subst fetchAlbums.simps) (simp add: add.assoc)
qed

lemma fetchAlbums_fail:
  "(\<And>k. k < n \<Longrightarrow> nonempty_page api a g (off + k * limit)) \<Longrightarrow>
   api a g limit (off + n * limit) = Inl e \<Longrightarrow>
   fetchAlbums api a g (off, acc) = Some (Inl e)"
proof (induction n arbitrary: off acc)
  case 0
  then show ?case by (subst fetchAlbums.simps) simp
next
  case (Suc n)
  from Suc.prems(1) [of 0] obtain items where
    p0: "api a g limit off = Inr items" and ne: "items \<noteq> []"
    by (auto simp: nonempty_page_def split: sum.splits)
  have "fetchAlbums api a g (off + limit, acc @ items) = Some (Inl e)"
  proof (rule Suc.IH)
    fix k assume "k < n"
    then have "nonempty_page api a g (off + Suc k * limit)" by (intro Suc.prems(1)) simp
    then show "nonempty_page api a g (off + limit + k * limit)" by (simp add: add.assoc)
  next
    from Suc.prems(2) show "api a g limit (off + limit + n * limit) = Inl e"
      by (simp add: add.assoc)
  qed
  with p0 ne show ?case
    by (subst fetchAlbums.simps) simp
qed

lemma stops_after_now:
  "api a g limit (fst st) = (case r of Inl e \<Rightarrow> Inl e | Inr st' \<Rightarrow> Inr [])
   \<Longrightarrow> stops_after api a g st r"
  unfolding stops_after_def by (rule exI [of _ 0]) simp

lemma stops_after_later:
  assumes "nonempty_page api a g (fst st)"
    and "stops_after api a g (fst st + limit, acc') r"
  shows "stops_after api a g st r"
proof -
  from assms(2) obtain n where
    n1: "\<forall>k<n. nonempty_page api a g (fst st + limit + k * limit)" and
    n2: "api a g limit (fst st + limit + n * limit) = (case r of Inl e \<Rightarrow> Inl e | Inr st' \<Rightarrow> Inr [])"
    by (auto simp: stops_after_def)
  have "\<forall>k<Suc n. nonempty_page api a g (fst st + k * limit)"
  proof (intro allI impI)
    fix k assume "k < Suc n"
    show "nonempty_page api a g (fst st + k * limit)"
    proof (cases k)
      case 0
      with assms(1) show ?thesis by simp
    next
      case (Suc j)
      with \<open>k < Suc n\<close> n1 have "nonempty_page api a g (fst st + limit + j * limit)" by simp
      with Suc show ?thesis by (simp add: add.assoc)
    qed
  qed
  moreover from n2 have
    "api a g limit (fst st + Suc n * limit) = (case r of Inl e \<Rightarrow> Inl e | Inr st' \<Rightarrow> Inr [])"
    by (simp add: add.assoc)
  ultimately show ?thesis unfolding stops_after_def by blast
qed

lemma fetchAlbums_returns_only_if:
  assumes ret: "fetchAlbums api a g st = Some r"
  shows "stops_after api a g st r"
proof (rule fetchAlbums.raw_induct [where P = stops_after, OF _ ret], goal_cases)
  case (1 f api a g st r)
  show ?case
  proof (cases "api a g limit (fst st)")
    case (Inl e)
    with 1(2) have "r = Inl e" by simp
    with Inl show ?thesis by (intro stops_after_now) simp
  next
    case (Inr items)
    show ?thesis
    proof (cases "items = []")
      case True
      with Inr 1(2) have "r = Inr st" by simp
      with Inr True show ?thesis by (intro stops_after_now) simp
    next
      case False
      with Inr 1(2) have "f api a g (fst st + limit, snd st @ items) = Some r" by simp
      then have "stops_after api a g (fst st + limit, snd st @ items) r" by (rule 1(1))
      moreover from Inr False have "nonempty_page api a g (fst st)"
        by (simp add: nonempty_page_def)
      ultimately show ?thesis using stops_after_later [of api a g st "snd st @ items" r] by simp
    qed
  qed
qed

lemma fetchAlbums_terminates:
  assumes "api a g limit (off + n * limit) = Inr []"
  shows "fetchAlbums api a g (off, acc) \<noteq> None"
proof -
  define P where "P k \<longleftrightarrow> \<not> nonempty_page api a g (off + k * limit)" for k
  have "P n" using assms by (simp add: P_def nonempty_page_def)
  then obtain m where m: "P m" and least: "\<And>k. k < m \<Longrightarrow> \<not> P k"
    using exists_least_iff [of P] by auto
  from least have pre: "\<And>k. k < m \<Longrightarrow> nonempty_page api a g (off + k * limit)"
    by (simp add: P_def)
  show ?thesis
  proof (cases "api a g limit (off + m * limit)")
    case (Inl e)
    from fetchAlbums_fail [OF pre Inl] show ?thesis by simp
  next
    case (Inr items)
    with m have "api a g limit (off + m * limit) = Inr []" by (simp add: P_def nonempty_page_def)
    from fetchAlbums_run [OF pre this] show ?thesis by simp
  qed
qed


lemma fetchAlbums_normal_exit_iff:
  "(\<exists>st'. fetchAlbums api a g (off, acc) = Some (Inr st')) \<longleftrightarrow>
   (\<exists>n. (\<forall>k<n. nonempty_page api a g (off + k * limit)) \<and> api a g limit (off + n * limit) = Inr [])"
proof
  assume "\<exists>st'. fetchAlbums api a g (off, acc) = Some (Inr st')"
  then obtain st' where "fetchAlbums api a g (off, acc) = Some (Inr st')" ..
  from fetchAlbums_returns_only_if [OF this]
  show "\<exists>n. (\<forall>k<n. nonempty_page api a g (off + k * limit)) \<and> api a g limit (off + n * limit) = Inr []"
    by (simp add: stops_after_def)
next
  assume "\<exists>n. (\<forall>k<n. nonempty_page api a g (off + k * limit)) \<and> api a g limit (off + n * limit) = Inr []"
  then obtain n where "\<And>k. k < n \<Longrightarrow> nonempty_page api a g (off + k * limit)"
    and "api a g limit (off + n * limit) = Inr []" by blast
  from fetchAlbums_run [OF this] show "\<exists>st'. fetchAlbums api a g (off, acc) = Some (Inr st')"
    by blast
qed

section \<open>The paginated fetcher: all categories\<close>

lemma fetchAllAlbums_terminates:
  assumes "\<forall>g \<in> set include_groups. \<exists>n. api a g limit (n * limit) = Inr []"
  shows "fetchAllAlbums api a \<noteq> None"
proof -
  have t: "fetchAlbums api a g (0, acc) \<noteq> None" if "g \<in> set include_groups" for g acc
  proof -
    from assms that obtain n where "api a g limit (0 + n * limit) = Inr []" by auto
    then show ?thesis by (rule fetchAlbums_terminates)
  qed
  have 1: "fetchAlbums api a ''album'' (0, acc) \<noteq> None" for acc
    by (rule t) (simp add: include_groups_def)
  have 2: "fetchAlbums api a ''single'' (0, acc) \<noteq> None" for acc
    by (rule t) (simp add: include_groups_def)
  have 3: "fetchAlbums api a ''compilation'' (0, acc) \<noteq> None" for acc
    by (rule t) (simp add: include_groups_def)
  have 4: "fetchAlbums api a ''appears_on'' (0, acc) \<noteq> None" for acc
    by (rule t) (simp add: include_groups_def)
  obtain r1 where r1: "fetchAlbums api a ''album'' (0, []) = Some r1" using 1 by blast
  show ?thesis
  proof (cases r1)
    case (Inl e)
    with r1 show ?thesis by (simp add: fetchAllAlbums_def)
  next
    case st1: (Inr st1)
    obtain r2 where r2: "fetchAlbums api a ''single'' (0, snd st1) = Some r2" using 2 by blast
    show ?thesis
    proof (cases r2)
      case (Inl e)
      with r1 st1 r2 show ?thesis by (simp add: fetchAllAlbums_def)
    next
      case st2: (Inr st2)
      obtain r3 where r3: "fetchAlbums api a ''compilation'' (0, snd st2) = Some r3"
        using 3 by blast
      show ?thesis
      proof (cases r3)
        case (Inl e)
        with r1 st1 r2 st2 r3 show ?thesis by (simp add: fetchAllAlbums_def)
      next
        case st3: (Inr st3)
        obtain r4 where r4: "fetchAlbums api a ''appears_on'' (0, snd st3) = Some r4"
          using 4 by blast
        with r1 st1 r2 st2 r3 st3 show ?thesis
          by (cases r4) (simp_all add: fetchAllAlbums_def)
      qed
    qed
  qed
qed

lemma fetchAlbums_stops_at:
  "stops_at api a g n \<Longrightarrow>
   fetchAlbums api a g (0, acc) = Some (Inr (n * limit, acc @ pages api a g 0 n))"
  using fetchAlbums_run [of n api a g 0 acc] by (simp add: stops_at_def)

lemma fetchAllAlbums_result:
  assumes "stops_at api a ''album'' n1" and "stops_at api a ''single'' n2"
    and "stops_at api a ''compilation'' n3" and "stops_at api a ''appears_on'' n4"
  shows "fetchAllAlbums api a =
     Some (Inr (pages api a ''album'' 0 n1 @ pages api a ''single'' 0 n2
                @ pages api a ''compilation'' 0 n3 @ pages api a ''appears_on'' 0 n4))"
  by (simp add: fetchAllAlbums_def fetchAlbums_stops_at [OF assms(1)]
      fetchAlbums_stops_at [OF assms(2)] fetchAlbums_stops_at [OF assms(3)]
      fetchAlbums_stops_at [OF assms(4)])

text \<open>
  C8. For every category the loop asks for the page at offset 0 and then at
  every further multiple of the page size, appends the items of each non-empty
  page, and leaves through its \<^verbatim>\<open>break\<close> exactly when, after non-empty pages
  only, a page with no items comes back; its state is then the offset of that
  page and all the items before it. When the upstream answers an empty page at
  some offset the loop reaches for each of the four categories,
  \<^verbatim>\<open>fetchAllAlbums\<close> returns (with the releases, or with the failure of a
  request), and when no request fails it returns the pages of the four
  categories in order, each category from offset 0.
\<close>

theorem fetchAllAlbums_pagination:
  "(stops_at api a g n \<longrightarrow>
      fetchAlbums api a g (0, acc) = Some (Inr (n * limit, acc @ pages api a g 0 n)))
   \<and> ((\<exists>st'. fetchAlbums api a g (0, acc) = Some (Inr st')) \<longleftrightarrow> (\<exists>n. stops_at api a g n))
   \<and> ((\<forall>g \<in> set include_groups. \<exists>n. api a g limit (n * limit) = Inr [])
        \<longrightarrow> fetchAllAlbums api a \<noteq> None)
   \<and> (stops_at api a ''album'' n1 \<and> stops_at api a ''single'' n2
        \<and> stops_at api a ''compilation'' n3 \<and> stops_at api a ''appears_on'' n4 \<longrightarrow>
       fetchAllAlbums api a =
         Some (Inr (pages api a ''album'' 0 n1 @ pages api a ''single'' 0 n2
                    @ pages api a ''compilation'' 0 n3 @ pages api a ''appears_on'' 0 n4)))"
proof -
  have "(\<exists>st'. fetchAlbums api a g (0, acc) = Some (Inr st')) \<longleftrightarrow> (\<exists>n. stops_at api a g n)"
    using fetchAlbums_normal_exit_iff [of api a g 0 acc] by (simp add: stops_at_def)
  then show ?thesis
    using fetchAlbums_stops_at fetchAllAlbums_terminates fetchAllAlbums_result by blast
qed

text \<open>On \<open>ex_api\<close> the singles loop stops at offset 98 with both pages appended,
  every category has an empty page at offset 98, and the whole fetch returns
  the four releases; on \<open>busy_api\<close>, which never answers an empty page, the
  loop does not return.\<close>

theorem fetchAllAlbums_pagination_witness:
  "fetchAlbums ex_api ''artist'' ''single'' (0, [7]) = Some (Inr (98, [7, 0, 49]))
   \<and> fetchAllAlbums ex_api ''artist'' = Some (Inr [1, 2, 0, 49])
   \<and> list_all (\<lambda>g. ex_api ''artist'' g limit (2 * limit) = Inr []) include_groups
   \<and> fetchAllAlbums ex_api ''artist'' \<noteq> None
   \<and> fetchAlbums busy_api ''artist'' ''album'' (0, []) = None"
proof -
  have s1: "stops_at ex_api ''artist'' ''album'' 1"
    by (simp add: stops_at_def nonempty_page_def ex_api_def limit_def)
  have s2: "stops_at ex_api ''artist'' ''single'' 2"
    by (simp add: stops_at_def nonempty_page_def ex_api_def limit_def less_Suc_eq numeral_2_eq_2)
  have s3: "stops_at ex_api ''artist'' ''compilation'' 0"
    by (simp add: stops_at_def nonempty_page_def ex_api_def limit_def)
  have s4: "stops_at ex_api ''artist'' ''appears_on'' 0"
    by (simp add: stops_at_def nonempty_page_def ex_api_def limit_def)
  have p1: "pages ex_api ''artist'' ''album'' 0 1 = [1, 2]"
    by (simp add: ex_api_def limit_def)
  have p2: "pages ex_api ''artist'' ''single'' 0 2 = [0, 49]"
    by (simp add: ex_api_def limit_def numeral_2_eq_2)
  have n: "\<not> (\<exists>n. stops_at busy_api ''artist'' ''album'' n)"
    by (simp add: stops_at_def busy_api_def)
  have a: "fetchAlbums ex_api ''artist'' ''single'' (0, [7]) = Some (Inr (98, [7, 0, 49]))"
    using fetchAllAlbums_pagination [of ex_api "''artist''" "''single''" 2 "[7]"] s2 p2
    by (simp add: limit_def)
  have b: "fetchAllAlbums ex_api ''artist'' = Some (Inr [1, 2, 0, 49])"
    using fetchAllAlbums_pagination [of ex_api "''artist''" _ _ _ 1 2 0 0] s1 s2 s3 s4 p1 p2
    by simp
  have e: "list_all (\<lambda>g. ex_api ''artist'' g limit (2 * limit) = Inr []) include_groups"
    by (simp add: include_groups_def ex_api_def limit_def)
  then have "\<forall>g \<in> set include_groups. \<exists>n. ex_api ''artist'' g limit (n * limit) = Inr []"
    unfolding list_all_iff by blast
  with fetchAllAlbums_pagination [of ex_api "''artist''"]
  have t: "fetchAllAlbums ex_api ''artist'' \<noteq> None" by blast
  have "\<not> (\<exists>st'. fetchAlbums busy_api ''artist'' ''album'' (0, []) = Some (Inr st'))"
    using fetchAllAlbums_pagination [of busy_api "''artist''" "''album''" _ "[]"] n by blast
  moreover have "fetchAlbums busy_api ''artist'' ''album'' (0, []) \<noteq> Some (Inl e)" for e
  proof
    assume "fetchAlbums busy_api ''artist'' ''album'' (0, []) = Some (Inl e)"
    from fetchAlbums_returns_only_if [OF this] show False
      by (simp add: stops_after_def busy_api_def)
  qed
  ultimately have c: "fetchAlbums busy_api ''artist'' ''album'' (0, []) = None"
    by (metis not_Some_eq sum.exhaust)
  from a b e t c show ?thesis by blast
qed

section \<open>Chunked playlist insertion: the loop\<close>

lemma chunk_lengths_small: "0 < n \<Longrightarrow> n < chunkSize \<Longrightarrow> chunk_lengths n = [n]"
  by (simp add: chunk_lengths_def)

lemma chunk_lengths_zero: "chunk_lengths 0 = []"
  by (simp add: chunk_lengths_def)

lemma chunk_lengths_step:
  assumes "chunkSize \<le> n"
  shows "chunk_lengths n = chunkSize # chunk_lengths (n - chunkSize)"
proof -
  from assms have d: "n div chunkSize = Suc ((n - chunkSize) div chunkSize)"
    by (simp add: chunkSize_def le_div_geq)
  from assms have m: "n mod chunkSize = (n - chunkSize) mod chunkSize"
    by (simp add: le_mod_geq)
  show ?thesis unfolding chunk_lengths_def d m by simp
qed

lemma length_slice: "length (slice xs i (i + chunkSize)) = min chunkSize (length xs - i)"
  by (simp add: slice_def)

lemma addTracksLoop_ok:
  assumes ok: "\<forall>c. add p c"
  shows "\<exists>cs. addTracksLoop add p uris i calls = (calls @ cs, True)
            \<and> concat cs = drop i uris
            \<and> map length cs = chunk_lengths (length uris - i)"
  using ok
proof (induction add p uris i calls rule: addTracksLoop.induct)
  case (1 add p uris i calls)
  show ?case
  proof (cases "i < length uris")
    case False
    then show ?thesis
      by (subst addTracksLoop.simps) (simp add: chunk_lengths_zero)
  next
    case True
    define chunk where "chunk = slice uris i (i + chunkSize)"
    from "1.prems" have okc: "add p chunk" by simp
    from "1.IH" [OF True chunk_def okc "1.prems"] obtain cs where
      r: "addTracksLoop add p uris (i + chunkSize) (calls @ [chunk]) = ((calls @ [chunk]) @ cs, True)"
      and c: "concat cs = drop (i + chunkSize) uris"
      and l: "map length cs = chunk_lengths (length uris - (i + chunkSize))"
      by blast
    have e: "addTracksLoop add p uris i calls = (calls @ (chunk # cs), True)"
      using True okc r by (subst addTracksLoop.simps) (simp add: chunk_def [symmetric])
    have cc: "concat (chunk # cs) = drop i uris"
    proof -
      have "drop (i + chunkSize) uris = drop chunkSize (drop i uris)"
        by (simp add: add.commute)
      then have "concat (chunk # cs) = take chunkSize (drop i uris) @ drop chunkSize (drop i uris)"
        by (simp only: concat.simps c chunk_def slice_def add_diff_cancel_left')
      then show ?thesis by (simp only: append_take_drop_id)
    qed
    have ll: "map length (chunk # cs) = chunk_lengths (length uris - i)"
    proof (cases "chunkSize \<le> length uris - i")
      case True
      then show ?thesis
        by (simp add: l chunk_def length_slice chunk_lengths_step [OF True] min_def)
    next
      case False
      with \<open>i < length uris\<close> have "chunk_lengths (length uris - i) = [length uris - i]"
        by (intro chunk_lengths_small) auto
      moreover from False have "chunk_lengths (length uris - (i + chunkSize)) = []"
        by (simp add: chunk_lengths_zero)
      ultimately show ?thesis using False
        by (simp add: l chunk_def length_slice min_def)
    qed
    from e cc ll show ?thesis by blast
  qed
qed

text \<open>
  C9. When no insertion call fails, the loop runs to its end, the chunks it
  sends are consecutive pieces of the URI list that together are the list, each
  is non-empty and has at most 100 items, and their sizes are 100 for every
  full chunk and then the rest: for 250 URIs exactly three calls, of 100, 100
  and 50 items, in that order.
\<close>

theorem addAllTracks_chunks:
  assumes "\<forall>c. addTracksToPlaylist playlistId c"
  shows "snd (addAllTracks addTracksToPlaylist playlistId trackUris)
   \<and> concat (fst (addAllTracks addTracksToPlaylist playlistId trackUris)) = trackUris
   \<and> (\<forall>c \<in> set (fst (addAllTracks addTracksToPlaylist playlistId trackUris)).
         c \<noteq> [] \<and> length c \<le> chunkSize)
   \<and> map length (fst (addAllTracks addTracksToPlaylist playlistId trackUris)) =
        chunk_lengths (length trackUris)
   \<and> (length trackUris = 250 \<longrightarrow>
        map length (fst (addAllTracks addTracksToPlaylist playlistId trackUris)) = [100, 100, 50])"
proof -
  from addTracksLoop_ok [of addTracksToPlaylist playlistId trackUris 0 "[]"] assms obtain cs where
    r: "addAllTracks addTracksToPlaylist playlistId trackUris = (cs, True)"
    and c: "concat cs = trackUris"
    and l: "map length cs = chunk_lengths (length trackUris)"
    by (auto simp: addAllTracks_def)
  have b: "\<forall>n \<in> set (chunk_lengths (length trackUris)). 0 < n \<and> n \<le> chunkSize"
    by (auto simp: chunk_lengths_def chunkSize_def)
  have "\<forall>c \<in> set cs. c \<noteq> [] \<and> length c \<le> chunkSize"
  proof
    fix c assume "c \<in> set cs"
    then have m: "length c \<in> set (chunk_lengths (length trackUris))"
      unfolding l [symmetric] by simp
    from b m have "0 < length c \<and> length c \<le> chunkSize" by (rule bspec)
    then show "c \<noteq> [] \<and> length c \<le> chunkSize" by simp
  qed
  moreover have "chunk_lengths 250 = [100, 100, 50]"
    by (simp add: chunk_lengths_def chunkSize_def numeral_2_eq_2)
  ultimately show ?thesis using r c l by auto
qed

text \<open>250 URIs and an upstream that accepts every call.\<close>

theorem addAllTracks_chunks_witness:
  "map length (fst (addAllTracks (\<lambda>playlistId chunk. True) ''playlist''
     (replicate 250 ''spotify:track:x''))) = [100, 100, 50]"
proof -
  note t = addAllTracks_chunks [of "\<lambda>playlistId chunk. True" "''playlist''" "replicate 250 ''spotify:track:x''"]
  have "length (replicate 250 ''spotify:track:x'') = 250" by simp
  with t show ?thesis by blast
qed


section \<open>Both operations only select\<close>

text \<open>
  C10. Every record of the resolver's output and of the filter's output is a
  record of the input, with the field values it had there, and no record stands
  twice in either output: neither operation makes up, changes or repeats a
  record. For the filter this holds whatever the lower-casing is.
\<close>

theorem outputs_select_from_input:
  "set (removeDuplicateTracks ts) \<subseteq> set ts \<and> distinct (removeDuplicateTracks ts)
   \<and> set (removeAlternateVersions toLowerCase ts) \<subseteq> set ts
   \<and> distinct (removeAlternateVersions toLowerCase ts)"
proof -
  have "set (removeDuplicateTracks ts) \<subseteq> set ts"
    using rdt_subseq [of ts] by (auto dest: list_emb_set)
  moreover have "distinct (removeDuplicateTracks ts)"
    using rdt_distinct [of ts] by (rule distinct_map [THEN iffD1, THEN conjunct1])
  moreover have "set (removeAlternateVersions toLowerCase ts) \<subseteq> set ts"
    using rav_subset [of toLowerCase ts] by auto
  moreover have "distinct (removeAlternateVersions toLowerCase ts)"
    using rav_distinct_keys [of toLowerCase ts]
    by (rule distinct_map [THEN iffD1, THEN conjunct1])
  ultimately show ?thesis by blast
qed

end
